theory Spec2Isabelle
  imports Complex_Main "HOL-Library.Word" "HOL-Library.AList"
begin

section \<open>Text: code points, whitespace, digits\<close>

text \<open>
  A Python \<^verbatim>\<open>str\<close> is a sequence of Unicode code points; a \<^verbatim>\<open>bytes\<close>
  object is a sequence of octets.  String literals of the source are written with
  \<open>cps\<close>, which maps every (ASCII) character of an Isabelle literal to its code.
\<close>

type_synonym ustr = "nat list"
type_synonym bytes = "8 word list"

definition cps :: "string \<Rightarrow> ustr" where
  "cps s = map of_char s"

text \<open>
  \<^verbatim>\<open>\s\<close>, \<^verbatim>\<open>\d\<close>, \<^verbatim>\<open>str.strip()\<close> and \<^verbatim>\<open>float()\<close> consult the
  Unicode character database of the interpreter for code points beyond ASCII.  That table
  is not part of the repository, so it is a parameter of the model; the ASCII part is
  fixed (white space is TAB..CR, FS..US and SPACE; the decimal digits are \<open>0\<close>..\<open>9\<close>).
\<close>

record unicode_db =
  uni_isspace :: "nat \<Rightarrow> bool"
  uni_decimal :: "nat \<Rightarrow> nat option"

definition is_space :: "unicode_db \<Rightarrow> nat \<Rightarrow> bool" where
  "is_space U c =
     (if c < 128 then (9 \<le> c \<and> c \<le> 13) \<or> (28 \<le> c \<and> c \<le> 32) else uni_isspace U c)"

definition decimal_digit :: "unicode_db \<Rightarrow> nat \<Rightarrow> nat option" where
  "decimal_digit U c =
     (if c < 128 then (if 48 \<le> c \<and> c \<le> 57 then Some (c - 48) else None)
      else uni_decimal U c)"

definition is_digit :: "unicode_db \<Rightarrow> nat \<Rightarrow> bool" where
  "is_digit U c = (decimal_digit U c \<noteq> None)"

text \<open>The class \<^verbatim>\<open>[A-Za-z0-9]\<close>: three ASCII ranges.\<close>

definition is_alnum :: "nat \<Rightarrow> bool" where
  "is_alnum c = ((65 \<le> c \<and> c \<le> 90) \<or> (97 \<le> c \<and> c \<le> 122) \<or> (48 \<le> c \<and> c \<le> 57))"

text \<open>\<^verbatim>\<open>str.strip()\<close> without argument removes leading and trailing white space.\<close>

definition strip :: "unicode_db \<Rightarrow> ustr \<Rightarrow> ustr" where
  "strip U s = rev (dropWhile (is_space U) (rev (dropWhile (is_space U) s)))"

subsection \<open>\<^verbatim>\<open>float(v)\<close>\<close>

text \<open>
  \<^verbatim>\<open>float\<close> is modelled on the texts the patterns below can capture: an optional
  minus sign, decimal digits, and optionally a point followed by decimal digits.  The
  result is the exact value of the decimal numeral as a real number (rounding to the
  nearest double and overflow to infinity are not represented).  \<open>None\<close> stands for
  \<^verbatim>\<open>ValueError\<close>; texts of any other shape are given \<open>None\<close> as well, although
  Python accepts some of them (exponents, \<^verbatim>\<open>inf\<close>, ...): lemma \<open>py_float_number\<close>
  below shows that no such text ever reaches the conversion.
\<close>

fun decimal_value :: "unicode_db \<Rightarrow> ustr \<Rightarrow> nat \<Rightarrow> nat option" where
  "decimal_value U [] acc = Some acc"
| "decimal_value U (c # cs) acc =
     (case decimal_digit U c of
        None \<Rightarrow> None
      | Some d \<Rightarrow> decimal_value U cs (10 * acc + d))"

definition unsigned_float :: "unicode_db \<Rightarrow> ustr \<Rightarrow> real option" where
  "unsigned_float U s =
     (let ip = takeWhile (\<lambda>c. c \<noteq> 46) s; rest = dropWhile (\<lambda>c. c \<noteq> 46) s in
      if ip = [] then None
      else case decimal_value U ip 0 of
        None \<Rightarrow> None
      | Some i \<Rightarrow>
          (case rest of
             [] \<Rightarrow> Some (real i)
           | _ # fp \<Rightarrow>
               if fp = [] then None
               else case decimal_value U fp 0 of
                 None \<Rightarrow> None
               | Some f \<Rightarrow> Some (real i + real f / 10 ^ length fp)))"

definition py_float :: "unicode_db \<Rightarrow> ustr \<Rightarrow> real option" where
  "py_float U s =
     (case s of
        [] \<Rightarrow> None
      | c # cs \<Rightarrow> if c = 45 then map_option uminus (unsigned_float U cs)
                 else unsigned_float U s)"

section \<open>\<^verbatim>\<open>bytes.decode(errors=...)\<close> for UTF-8\<close>

text \<open>
  \<^verbatim>\<open>readline().decode(errors="ignore")\<close> decodes UTF-8, the default encoding.  The
  decoder of the interpreter reads one code point at a time; at an ill-formed sequence it
  reports an error that covers the bytes read so far of that sequence (an invalid start
  byte: that byte; an invalid continuation byte: the bytes before it; a sequence cut off
  by the end of the input: everything that is left) and the error handler named by
  \<^verbatim>\<open>errors\<close> decides: \<^verbatim>\<open>strict\<close> raises \<^verbatim>\<open>UnicodeDecodeError\<close>,
  \<^verbatim>\<open>ignore\<close> skips the bytes, \<^verbatim>\<open>replace\<close> puts U+FFFD in their place.
\<close>

definition is_cont :: "8 word \<Rightarrow> bool" where
  "is_cont b = (0x80 \<le> b \<and> b < 0xC0)"

text \<open>Second bytes that can never follow the start byte \<open>b\<close> (overlong forms, surrogates,
  code points beyond U+10FFFF).\<close>

definition bad_second :: "8 word \<Rightarrow> 8 word \<Rightarrow> bool" where
  "bad_second b b2 =
     (\<not> is_cont b2 \<or> (b = 0xE0 \<and> b2 < 0xA0) \<or> (b = 0xED \<and> 0xA0 \<le> b2)
      \<or> (b = 0xF0 \<and> b2 < 0x90) \<or> (b = 0xF4 \<and> 0x90 \<le> b2))"

definition low6 :: "8 word \<Rightarrow> nat" where
  "low6 b = unat b - 128"

text \<open>
  \<open>utf8_next b bs\<close>: the item that starts with byte \<open>b\<close>, followed by \<open>bs\<close>: a code
  point or \<open>None\<close> for an error, and how many bytes of \<open>bs\<close> belong to it.
\<close>

definition utf8_next :: "8 word \<Rightarrow> bytes \<Rightarrow> nat option \<times> nat" where
  "utf8_next b bs =
     (if b < 0x80 then (Some (unat b), 0)
      else if b < 0xC2 then (None, 0)
      else if b < 0xE0 then
        (case bs of
           [] \<Rightarrow> (None, 0)
         | b2 # _ \<Rightarrow>
             if is_cont b2 then (Some ((unat b - 192) * 64 + low6 b2), 1) else (None, 0))
      else if b < 0xF0 then
        (case bs of
           [] \<Rightarrow> (None, 0)
         | [b2] \<Rightarrow> if bad_second b b2 then (None, 0) else (None, 1)
         | b2 # b3 # _ \<Rightarrow>
             if bad_second b b2 then (None, 0)
             else if \<not> is_cont b3 then (None, 1)
             else (Some ((unat b - 224) * 4096 + low6 b2 * 64 + low6 b3), 2))
      else if b < 0xF5 then
        (case bs of
           [] \<Rightarrow> (None, 0)
         | [b2] \<Rightarrow> if bad_second b b2 then (None, 0) else (None, 1)
         | [b2, b3] \<Rightarrow>
             if bad_second b b2 then (None, 0)
             else if \<not> is_cont b3 then (None, 1)
             else (None, 2)
         | b2 # b3 # b4 # _ \<Rightarrow>
             if bad_second b b2 then (None, 0)
             else if \<not> is_cont b3 then (None, 1)
             else if \<not> is_cont b4 then (None, 2)
             else (Some ((unat b - 240) * 262144 + low6 b2 * 4096 + low6 b3 * 64 + low6 b4), 3))
      else (None, 0))"

function utf8_items :: "bytes \<Rightarrow> nat option list" where
  "utf8_items [] = []"
| "utf8_items (b # bs) = (case utf8_next b bs of (r, k) \<Rightarrow> r # utf8_items (drop k bs))"
  by pat_completeness auto
termination
  by (relation "measure length") auto

datatype errors = Strict | Ignore | Replace

text \<open>\<open>None\<close> is \<^verbatim>\<open>UnicodeDecodeError\<close>.\<close>

definition decode :: "errors \<Rightarrow> bytes \<Rightarrow> ustr option" where
  "decode h bs =
     (let items = utf8_items bs in
      case h of
        Strict \<Rightarrow> (if None \<in> set items then None else Some (map the items))
      | Ignore \<Rightarrow> Some (concat (map (\<lambda>r. case r of None \<Rightarrow> [] | Some c \<Rightarrow> [c]) items))
      | Replace \<Rightarrow> Some (map (\<lambda>r. case r of None \<Rightarrow> 0xFFFD | Some c \<Rightarrow> c) items))"

section \<open>\<^verbatim>\<open>SerialReader\<close>\<close>

text \<open>
  The messages of \<^verbatim>\<open>error_occurred\<close>, by kind: the retry notice carries the counter
  and the bound; the port name and the text of the exception are left out.
\<close>

datatype msg =
    NoPyserial
  | Reconnecting int int
  | CannotOpen
  | ReadError

datatype signal = ConnectionReady | DataReceived ustr | ErrorOccurred msg

text \<open>
  What the thread does that can be observed from outside, in order: the signals it
  emits, the calls of \<^verbatim>\<open>serial.Serial(...)\<close> and of \<^verbatim>\<open>time.sleep\<close> (seconds).
\<close>

datatype action = OpenSerial | Emit signal | Sleep real

record reader =
  running :: bool
  ser :: bool
  max_reconnect_attempts :: int
  reconnect_count :: int
  trace :: "action list"

text \<open>\<^verbatim>\<open>__init__\<close>: \<open>ser\<close> tells whether \<^verbatim>\<open>self.ser\<close> holds a port object.\<close>

definition init_reader :: "int \<Rightarrow> reader" where
  "init_reader n =
     \<lparr>running = False, ser = False, max_reconnect_attempts = n, reconnect_count = 0,
      trace = []\<rparr>"

text \<open>
  What the serial library does during one pass through the loop is an input: the value
  of \<^verbatim>\<open>self.ser.is_open\<close> at the top of the pass, how \<^verbatim>\<open>serial.Serial(...)\<close>
  ends if it is called, and how \<^verbatim>\<open>in_waiting\<close> and \<^verbatim>\<open>readline()\<close> end if they
  are reached.  \<open>Stop\<close> is a call of \<^verbatim>\<open>stop()\<close> by the other thread between two
  passes.
\<close>

datatype open_result = Opened | OpenSerialException | OpenException

datatype poll_result = NoData | Data bytes | PollSerialException | PollException

datatype world = Stop | Port bool open_result poll_result

datatype exn = SerialException | OtherException

definition act :: "reader \<Rightarrow> action list \<Rightarrow> reader" where
  "act st as = st\<lparr>trace := trace st @ as\<rparr>"

text \<open>Lines 56--60.  An exception leaves the state as it is at that point.\<close>

definition open_port :: "reader \<Rightarrow> bool \<Rightarrow> open_result \<Rightarrow> (exn \<times> reader) + reader" where
  "open_port st is_open r =
     (if \<not> ser st \<or> \<not> is_open then
        (case r of
           OpenSerialException \<Rightarrow> Inl (SerialException, act st [OpenSerial])
         | OpenException \<Rightarrow> Inl (OtherException, act st [OpenSerial])
         | Opened \<Rightarrow>
             Inr ((act st [OpenSerial, Emit ConnectionReady])\<lparr>ser := True, reconnect_count := 0\<rparr>))
      else Inr st)"

text \<open>Lines 62--70.\<close>

definition poll_port :: "unicode_db \<Rightarrow> reader \<Rightarrow> poll_result \<Rightarrow> (exn \<times> reader) + reader" where
  "poll_port U st r =
     (case r of
        PollSerialException \<Rightarrow> Inl (SerialException, st)
      | PollException \<Rightarrow> Inl (OtherException, st)
      | NoData \<Rightarrow> Inr (act st [Sleep (1 / 100)])
      | Data bs \<Rightarrow>
          (case decode Ignore bs of
             None \<Rightarrow> Inl (OtherException, st)
           | Some text \<Rightarrow>
               (let line = strip U text in
                if line \<noteq> [] then Inr (act st [Emit (DataReceived line)]) else Inr st)))"

datatype control = Continue | Break

text \<open>Lines 72--84 and 85--89: the two handlers.\<close>

definition on_serial_exception :: "reader \<Rightarrow> control \<times> reader" where
  "on_serial_exception st =
     (let st1 = st\<lparr>reconnect_count := reconnect_count st + 1\<rparr> in
      if reconnect_count st1 \<le> max_reconnect_attempts st1
      then (Continue,
            act st1 [Emit (ErrorOccurred
                       (Reconnecting (reconnect_count st1) (max_reconnect_attempts st1))),
                     Sleep 1])
      else (Break, act st1 [Emit (ErrorOccurred CannotOpen)]))"

definition on_exception :: "reader \<Rightarrow> control \<times> reader" where
  "on_exception st = (Continue, act st [Emit (ErrorOccurred ReadError), Sleep (1 / 10)])"

text \<open>One pass through the body of \<^verbatim>\<open>while self._running\<close>.\<close>

definition iteration ::
  "unicode_db \<Rightarrow> reader \<Rightarrow> bool \<Rightarrow> open_result \<Rightarrow> poll_result \<Rightarrow> control \<times> reader" where
  "iteration U st is_open opn poll =
     (case (case open_port st is_open opn of
              Inl e \<Rightarrow> Inl e
            | Inr st1 \<Rightarrow> poll_port U st1 poll) of
        Inr st2 \<Rightarrow> (Continue, st2)
      | Inl (SerialException, st2) \<Rightarrow> on_serial_exception st2
      | Inl (OtherException, st2) \<Rightarrow> on_exception st2)"

text \<open>\<^verbatim>\<open>stop()\<close>; whether the port was open makes no difference to the attributes kept here.\<close>

definition stop :: "reader \<Rightarrow> reader" where
  "stop st = st\<lparr>running := False\<rparr>"

text \<open>
  The loop, driven by what the outside world does.  It can run forever; the result says
  how far it got on the given inputs: still \<open>Looping\<close> when they are used up, \<open>Stopped\<close>
  when the loop test failed, \<open>Failed\<close> when it was left by \<^verbatim>\<open>break\<close>.
\<close>

datatype link = Looping | Stopped | Failed

fun run_loop :: "unicode_db \<Rightarrow> reader \<Rightarrow> world list \<Rightarrow> link \<times> reader" where
  "run_loop U st [] = (if running st then (Looping, st) else (Stopped, st))"
| "run_loop U st (Stop # ws) = run_loop U (stop st) ws"
| "run_loop U st (Port is_open opn poll # ws) =
     (if \<not> running st then (Stopped, st)
      else case iteration U st is_open opn poll of
        (Break, st1) \<Rightarrow> (Failed, st1)
      | (Continue, st1) \<Rightarrow> run_loop U st1 ws)"

text \<open>\<^verbatim>\<open>run\<close>, with the flag \<^verbatim>\<open>HAS_SERIAL\<close> of the module.\<close>

definition run :: "bool \<Rightarrow> unicode_db \<Rightarrow> reader \<Rightarrow> world list \<Rightarrow> link \<times> reader" where
  "run has_serial U st ws =
     (let st1 = st\<lparr>running := True\<rparr> in
      if \<not> has_serial then (Stopped, act st1 [Emit (ErrorOccurred NoPyserial)])
      else run_loop U st1 ws)"

section \<open>Regular expressions: the fragment used by \<^verbatim>\<open>handle_line\<close>\<close>

text \<open>
  The four patterns are built from literals, sequencing, alternation, the greedy
  optional \<^verbatim>\<open>?\<close>, greedy \<^verbatim>\<open>*\<close> and \<^verbatim>\<open>+\<close> over a character class, and
  capturing groups (never nested, never inside an optional part).
\<close>

datatype re =
    Lit ustr
  | Seq re re
  | Alt re re
  | Opt re
  | Star "nat \<Rightarrow> bool"
  | Plus "nat \<Rightarrow> bool"
  | Grp re

text \<open>
  \<open>runs C s\<close>: what remains of \<open>s\<close> after a greedy repetition of class \<open>C\<close> has
  consumed \<open>k\<close> characters, for every possible \<open>k\<close>, the longest run first.
\<close>

fun runs :: "(nat \<Rightarrow> bool) \<Rightarrow> ustr \<Rightarrow> ustr list" where
  "runs C [] = [[]]"
| "runs C (c # t) = (if C c then runs C t @ [c # t] else [c # t])"

text \<open>
  \<open>rmatch r s\<close> lists every way in which \<open>r\<close> matches a prefix of \<open>s\<close>, in the order
  in which a backtracking matcher tries them: the captured groups (in group order) and
  the rest of the input.  The head of the list is the match the engine reports.
\<close>

fun rmatch :: "re \<Rightarrow> ustr \<Rightarrow> (ustr list \<times> ustr) list" where
  "rmatch (Lit w) s = (if take (length w) s = w then [([], drop (length w) s)] else [])"
| "rmatch (Seq a b) s =
     concat (map (\<lambda>(g1, s1). map (\<lambda>(g2, s2). (g1 @ g2, s2)) (rmatch b s1)) (rmatch a s))"
| "rmatch (Alt a b) s = rmatch a s @ rmatch b s"
| "rmatch (Opt a) s = rmatch a s @ [([], s)]"
| "rmatch (Star C) s = map (\<lambda>r. ([], r)) (runs C s)"
| "rmatch (Plus C) s =
     (case s of
        [] \<Rightarrow> []
      | c # t \<Rightarrow> if C c then map (\<lambda>r. ([], r)) (runs C t) else [])"
| "rmatch (Grp a) s = map (\<lambda>(g, r). (g @ [take (length s - length r) s], r)) (rmatch a s)"

text \<open>
  \<^verbatim>\<open>re.findall\<close>: scan from the left; at each position take the first match, record
  its groups and continue behind it; where nothing matches, move one character on.
  (The patterns here never match the empty text, so the rule of \<^verbatim>\<open>re\<close> for what
  follows an empty match is never exercised; the model then moves one character on.)
\<close>

function findall :: "re \<Rightarrow> ustr \<Rightarrow> ustr list list" where
  "findall r s =
     (case rmatch r s of
        [] \<Rightarrow> (case s of [] \<Rightarrow> [] | _ # t \<Rightarrow> findall r t)
      | (g, rest) # _ \<Rightarrow>
          g # (if length rest < length s then findall r rest
               else (case s of [] \<Rightarrow> [] | _ # t \<Rightarrow> findall r t)))"
  by pat_completeness auto
termination
  by (relation "measure (\<lambda>(r, s). length s)") auto

section \<open>Line parsing (\<^verbatim>\<open>handle_line\<close>, lines 398--421)\<close>

definition key_group :: re where
  "key_group = Grp (Plus is_alnum)"

definition number_group :: "unicode_db \<Rightarrow> re" where
  "number_group U =
     Grp (Seq (Opt (Lit (cps ''-'')))
         (Seq (Plus (is_digit U)) (Opt (Seq (Lit (cps ''.'')) (Plus (is_digit U))))))"

definition unit_suffix :: re where
  "unit_suffix =
     Opt (Alt (Lit (cps ''cm'')) (Alt (Lit (cps ''mm'')) (Alt (Lit (cps ''m''))
         (Alt (Lit [176]) (Lit (cps ''deg''))))))"

definition pattern1 :: "unicode_db \<Rightarrow> re" where
  "pattern1 U =
     Seq key_group (Seq (Lit (cps '':'')) (Seq (Star (is_space U)) (number_group U)))"

definition pattern2 :: "unicode_db \<Rightarrow> re" where
  "pattern2 U =
     Seq key_group (Seq (Star (is_space U)) (Seq (Lit (cps ''=''))
       (Seq (Star (is_space U)) (number_group U))))"

definition pattern3 :: "unicode_db \<Rightarrow> re" where
  "pattern3 U =
     Seq key_group (Seq (Star (is_space U)) (Seq (Lit (cps '':''))
       (Seq (Star (is_space U)) (Seq (number_group U) unit_suffix))))"

definition pattern4 :: "unicode_db \<Rightarrow> re" where
  "pattern4 U =
     Seq key_group (Seq (Star (is_space U)) (Seq (Lit (cps ''=''))
       (Seq (Star (is_space U)) (Seq (number_group U) unit_suffix))))"

definition patterns :: "unicode_db \<Rightarrow> re list" where
  "patterns U = [pattern1 U, pattern2 U, pattern3 U, pattern4 U]"

text \<open>
  The dictionary \<^verbatim>\<open>values\<close>: keys in insertion order; assigning to a key that is
  present replaces its value in place (\<open>AList.update\<close>), \<open>map_of\<close> looks a key up.
\<close>

type_synonym valuedict = "(ustr \<times> real) list"

text \<open>
  The body of \<^verbatim>\<open>for k, v in matches\<close>: store \<^verbatim>\<open>float(v)\<close> under the stripped
  key; a \<^verbatim>\<open>ValueError\<close> is caught and the token skipped.  Every match of the
  patterns has exactly two groups.
\<close>

fun store_match :: "unicode_db \<Rightarrow> valuedict \<Rightarrow> ustr list \<Rightarrow> valuedict" where
  "store_match U vals [k, v] =
     (case py_float U v of
        None \<Rightarrow> vals
      | Some x \<Rightarrow> AList.update (strip U k) x vals)"
| "store_match U vals _ = vals"

fun store_matches :: "unicode_db \<Rightarrow> valuedict \<Rightarrow> ustr list list \<Rightarrow> valuedict" where
  "store_matches U vals [] = vals"
| "store_matches U vals (m # ms) = store_matches U (store_match U vals m) ms"

text \<open>
  The loop \<^verbatim>\<open>for pattern in patterns\<close> with its \<^verbatim>\<open>break\<close>: the first pattern
  with a non-empty \<^verbatim>\<open>findall\<close> fills the dictionary and ends the loop.
\<close>

fun try_patterns :: "unicode_db \<Rightarrow> re list \<Rightarrow> ustr \<Rightarrow> valuedict" where
  "try_patterns U [] line = []"
| "try_patterns U (p # ps) line =
     (let matches = findall p line in
      if matches \<noteq> [] then store_matches U [] matches
      else try_patterns U ps line)"

text \<open>
  \<open>parse\<close> is the prefix of \<^verbatim>\<open>handle_line\<close> that computes \<^verbatim>\<open>values\<close>; the early
  \<^verbatim>\<open>return\<close> on an empty stripped line leaves the dictionary empty.
\<close>

definition parse :: "unicode_db \<Rightarrow> ustr \<Rightarrow> valuedict" where
  "parse U line0 =
     (let line = strip U line0 in
      if line = [] then [] else try_patterns U (patterns U) line)"

section \<open>The sample buffers of \<^verbatim>\<open>RealTimeCIRPlot\<close>\<close>

text \<open>
  \<^verbatim>\<open>deque(maxlen=n).append(x)\<close>: the item is added on the right; when the deque
  is then longer than \<open>n\<close>, one item is removed on the left.
\<close>

definition deque_append :: "nat \<Rightarrow> 'a list \<Rightarrow> 'a \<Rightarrow> 'a list" where
  "deque_append maxlen xs x = (let ys = xs @ [x] in if maxlen < length ys then tl ys else ys)"

text \<open>A buffered value is a parsed number or \<^verbatim>\<open>np.nan\<close>.\<close>

datatype cell = Num real | NaN

text \<open>
  The attributes of the widget that \<^verbatim>\<open>handle_line\<close> and \<^verbatim>\<open>clear_data\<close> read
  and write.  \<open>plot_updates\<close> counts the calls of \<^verbatim>\<open>update_plots\<close>; the drawing
  itself and the label texts are not represented.  Times are real numbers.
\<close>

record plot =
  max_samples :: nat
  data_buffers :: "ustr \<rightharpoonup> cell list"
  sample_indices :: "int list"
  timestamps :: "real list"
  last_update_time :: real
  update_interval :: real
  plot_updates :: nat

definition fields :: "ustr list" where
  "fields = [cps ''D'', cps ''fom'', cps ''PD01'', cps ''PD02'', cps ''PD12'',
             cps ''azimuth'', cps ''elevation'']"

text \<open>The state at the end of \<^verbatim>\<open>__init__\<close> (which draws the empty plot once).\<close>

definition init_plot :: plot where
  "init_plot =
     \<lparr>max_samples = 500,
      data_buffers = map_of (map (\<lambda>f. (f, [])) fields),
      sample_indices = [],
      timestamps = [],
      last_update_time = 0,
      update_interval = 20,
      plot_updates = 1\<rparr>"

text \<open>
  The loop \<^verbatim>\<open>for f in self.fields\<close> of lines 435--440.  \<^verbatim>\<open>self.data_buffers[f]\<close>
  raises \<^verbatim>\<open>KeyError\<close> for a missing key: the loop then stops with the buffers as
  they are, and the flag is \<open>False\<close>.
\<close>

fun append_fields ::
  "nat \<Rightarrow> valuedict \<Rightarrow> ustr list \<Rightarrow> (ustr \<rightharpoonup> cell list) \<Rightarrow> (ustr \<rightharpoonup> cell list) \<times> bool" where
  "append_fields n vals [] bufs = (bufs, True)"
| "append_fields n vals (f # fs) bufs =
     (case bufs f of
        None \<Rightarrow> (bufs, False)
      | Some buf \<Rightarrow>
          append_fields n vals fs
            (bufs(f \<mapsto> deque_append n buf
               (case map_of vals f of Some x \<Rightarrow> Num x | None \<Rightarrow> NaN))))"

text \<open>Lines 428--440: index, time stamp and one cell per known field.\<close>

definition append_sample :: "plot \<Rightarrow> valuedict \<Rightarrow> real \<Rightarrow> plot \<times> bool" where
  "append_sample st vals timestamp =
     (let idx = (if sample_indices st \<noteq> [] then last (sample_indices st) + 1 else 0);
          st1 = st\<lparr>sample_indices := deque_append (max_samples st) (sample_indices st) idx,
                   timestamps := deque_append (max_samples st) (timestamps st) timestamp\<rparr>;
          (bufs, ok) = append_fields (max_samples st) vals fields (data_buffers st1)
      in (st1\<lparr>data_buffers := bufs\<rparr>, ok))"

text \<open>
  Lines 446--449: the plot is redrawn when more than \<open>update_interval\<close> milliseconds
  have passed since the last redraw, and only then is \<open>last_update_time\<close> set.
\<close>

definition should_render :: "plot \<Rightarrow> real \<Rightarrow> bool \<times> plot" where
  "should_render st current_time =
     (if current_time - last_update_time st > update_interval st
      then (True, st\<lparr>last_update_time := current_time, plot_updates := plot_updates st + 1\<rparr>)
      else (False, st))"

text \<open>
  \<^verbatim>\<open>handle_line\<close>.  The two readings of \<^verbatim>\<open>time.time()\<close> (seconds) are inputs.
  An exception inside the body is caught by the outer handler, which only prints: the
  state is left as it was when the exception occurred.
\<close>

definition handle_line :: "unicode_db \<Rightarrow> plot \<Rightarrow> ustr \<Rightarrow> real \<Rightarrow> real \<Rightarrow> plot" where
  "handle_line U st line0 time1 time2 =
     (let line = strip U line0 in
      if line = [] then st
      else
        let vals = try_patterns U (patterns U) line in
        if vals = [] then st
        else
          (case append_sample st vals time1 of
             (st1, False) \<Rightarrow> st1
           | (st1, True) \<Rightarrow> snd (should_render st1 (time2 * 1000))))"

text \<open>\<^verbatim>\<open>clear_data\<close>: the buffers are emptied when the dialog is answered with Yes.\<close>

datatype reply = Yes | No

definition clear_data :: "plot \<Rightarrow> reply \<Rightarrow> plot" where
  "clear_data st r =
     (if r = Yes
      then st\<lparr>data_buffers := (\<lambda>f. map_option (\<lambda>buf. []) (data_buffers st f)),
              sample_indices := [],
              timestamps := [],
              plot_updates := plot_updates st + 1\<rparr>
      else st)"

section \<open>Notions used in the statements\<close>

text \<open>
  A pass through the loop that ends in \<^verbatim>\<open>SerialException\<close>, whichever call raises
  it: \<^verbatim>\<open>serial.Serial\<close> where the port has to be opened, or \<^verbatim>\<open>in_waiting\<close> and
  \<^verbatim>\<open>readline\<close>, on a port that was open or that has just been opened.
\<close>

definition serial_error :: "reader \<Rightarrow> world \<Rightarrow> bool" where
  "serial_error st w =
     (case w of
        Stop \<Rightarrow> False
      | Port is_open opn poll \<Rightarrow>
          if \<not> ser st \<or> \<not> is_open
          then opn = OpenSerialException \<or> (opn = Opened \<and> poll = PollSerialException)
          else poll = PollSerialException)"

text \<open>The reader at the end of lines 56--60 of such a pass, where the exception is raised
  or reading begins.\<close>

definition after_open :: "reader \<Rightarrow> world \<Rightarrow> reader" where
  "after_open st w =
     (case w of
        Stop \<Rightarrow> st
      | Port is_open opn poll \<Rightarrow>
          (case open_port st is_open opn of Inl (e, st1) \<Rightarrow> st1 | Inr st1 \<Rightarrow> st1))"

text \<open>
  Such a pass in which no port is opened: the port has to be opened and
  \<^verbatim>\<open>serial.Serial\<close> fails, or the port is open and reading fails.
\<close>

definition transport_error :: "reader \<Rightarrow> world \<Rightarrow> bool" where
  "transport_error st w =
     (case w of
        Stop \<Rightarrow> False
      | Port is_open opn poll \<Rightarrow>
          if \<not> ser st \<or> \<not> is_open then opn = OpenSerialException
          else poll = PollSerialException)"

text \<open>The attempt to open the port that such a pass makes, if it makes one.\<close>

definition attempt :: "reader \<Rightarrow> world \<Rightarrow> action list" where
  "attempt st w =
     (case w of
        Stop \<Rightarrow> []
      | Port is_open opn poll \<Rightarrow> if \<not> ser st \<or> \<not> is_open then [OpenSerial] else [])"


text \<open>
  For concrete instances: a character database in which no code point beyond ASCII is
  white space or a decimal digit.
\<close>

definition ascii_db :: unicode_db where
  "ascii_db = \<lparr>uni_isspace = (\<lambda>c. False), uni_decimal = (\<lambda>c. None)\<rparr>"

text \<open>The cell that a sample with the parsed values \<open>vals\<close> has for field \<open>f\<close>.\<close>

definition cell_of :: "valuedict \<Rightarrow> ustr \<Rightarrow> cell" where
  "cell_of vals f = (case map_of vals f of Some x \<Rightarrow> Num x | None \<Rightarrow> NaN)"

text \<open>
  The invariant of the buffers: every known field has a buffer, and all buffers, the
  index series and the time stamp series are equally long.
\<close>

definition store_inv :: "plot \<Rightarrow> bool" where
  "store_inv st =
     (length (timestamps st) = length (sample_indices st)
      \<and> list_all (\<lambda>f. case data_buffers st f of
                         None \<Rightarrow> False
                       | Some buf \<Rightarrow> length buf = length (sample_indices st)) fields)"

text \<open>A sequence of received lines, each with its two clock readings.\<close>

fun feed :: "unicode_db \<Rightarrow> plot \<Rightarrow> (ustr \<times> real \<times> real) list \<Rightarrow> plot" where
  "feed U st [] = st"
| "feed U st ((line, time1, time2) # xs) = feed U (handle_line U st line time1 time2) xs"

text \<open>The index that line 430 gives to the next sample.\<close>

definition next_idx :: "plot \<Rightarrow> int" where
  "next_idx st = (if sample_indices st \<noteq> [] then last (sample_indices st) + 1 else 0)"

text \<open>The texts that a pattern can match as a whole, and the patterns without groups.\<close>

fun lang :: "re \<Rightarrow> ustr set" where
  "lang (Lit w) = {w}"
| "lang (Seq a b) = {u @ v | u v. u \<in> lang a \<and> v \<in> lang b}"
| "lang (Alt a b) = lang a \<union> lang b"
| "lang (Opt a) = insert [] (lang a)"
| "lang (Star C) = {u. list_all C u}"
| "lang (Plus C) = {u. u \<noteq> [] \<and> list_all C u}"
| "lang (Grp a) = lang a"

fun groupfree :: "re \<Rightarrow> bool" where
  "groupfree (Lit w) = True"
| "groupfree (Seq a b) = (groupfree a \<and> groupfree b)"
| "groupfree (Alt a b) = (groupfree a \<and> groupfree b)"
| "groupfree (Opt a) = groupfree a"
| "groupfree (Star C) = True"
| "groupfree (Plus C) = True"
| "groupfree (Grp a) = False"

text \<open>The pattern inside the second group.\<close>

definition number_body :: "unicode_db \<Rightarrow> re" where
  "number_body U =
     Seq (Opt (Lit (cps ''-'')))
       (Seq (Plus (is_digit U)) (Opt (Seq (Lit (cps ''.'')) (Plus (is_digit U)))))"

text \<open>A match of one of the four patterns: a key and a number.\<close>

definition key_number :: "unicode_db \<Rightarrow> ustr list \<Rightarrow> bool" where
  "key_number U g =
     (\<exists>k v x. g = [k, v] \<and> k \<noteq> [] \<and> strip U k = k \<and> py_float U v = Some x)"

text \<open>Patterns whose only group is the number.\<close>

definition number_tail :: "unicode_db \<Rightarrow> re \<Rightarrow> bool" where
  "number_tail U b =
     (\<forall>g r s. (g, r) \<in> set (rmatch b s) \<longrightarrow> (\<exists>v x. g = [v] \<and> py_float U v = Some x))"

text \<open>
  The stripped text of a received line under error handler \<open>h\<close>, and the signal that
  the reader emits for it.  With \<open>Ignore\<close> this is what lines 63--67 do; with \<open>Replace\<close>
  it is what a reader that replaced ill-formed bytes would do.
\<close>

definition line_of :: "unicode_db \<Rightarrow> errors \<Rightarrow> bytes \<Rightarrow> ustr" where
  "line_of U h bs = (case decode h bs of None \<Rightarrow> [] | Some text \<Rightarrow> strip U text)"

definition received :: "unicode_db \<Rightarrow> errors \<Rightarrow> bytes \<Rightarrow> action list" where
  "received U h bs = (if line_of U h bs \<noteq> [] then [Emit (DataReceived (line_of U h bs))] else [])"

text \<open>Bytes that cannot start a UTF-8 sequence.\<close>

definition never_start :: "8 word \<Rightarrow> bool" where
  "never_start b = ((0x80 \<le> b \<and> b < 0xC2) \<or> 0xF5 \<le> b)"

section \<open>The reconnect policy\<close>



lemma transport_error_upd [simp]:
  "transport_error (st\<lparr>reconnect_count := c, trace := t\<rparr>) w = transport_error st w"
  "attempt (st\<lparr>reconnect_count := c, trace := t\<rparr>) w = attempt st w"
  by (simp_all add: transport_error_def attempt_def split: world.splits)


lemma after_open_keeps [simp]:
  "running (after_open st w) = running st"
  "max_reconnect_attempts (after_open st w) = max_reconnect_attempts st"
  by (auto simp: after_open_def open_port_def act_def split: world.splits open_result.splits)




lemma iteration_no_serial_error:
  assumes "\<not> serial_error st (Port is_open opn poll)"
  shows "fst (iteration U st is_open opn poll) = Continue
         \<and> reconnect_count (snd (iteration U st is_open opn poll)) =
             reconnect_count (after_open st (Port is_open opn poll))"
  using assms
  by (cases opn; cases poll)
     (auto simp: serial_error_def after_open_def iteration_def open_port_def poll_port_def
                 act_def on_exception_def decode_def Let_def)




section \<open>The render throttle\<close>

text \<open>
  C9.  A first call at \<open>t1\<close>, more than \<open>update_interval\<close> milliseconds after the last
  redraw (on a new widget \<open>last_update_time\<close> is 0, far behind any clock), answers yes;
  a second call at most \<open>update_interval\<close> milliseconds after the first answers no; a
  third call more than \<open>update_interval\<close> after the first answers yes again.  In every
  call \<open>last_update_time\<close> becomes the time of the call when the answer is yes and
  stays as it is otherwise.
\<close>

theorem render_throttle:
  "(update_interval st < t1 - last_update_time st \<and> t2 - t1 \<le> update_interval st
      \<and> update_interval st < t3 - t1 \<longrightarrow>
      (case should_render st t1 of (r1, st1) \<Rightarrow>
       case should_render st1 t2 of (r2, st2) \<Rightarrow>
       case should_render st2 t3 of (r3, st3) \<Rightarrow>
         r1 \<and> \<not> r2 \<and> r3 \<and> last_update_time st1 = t1 \<and> last_update_time st2 = t1
         \<and> last_update_time st3 = t3))
   \<and> last_update_time (snd (should_render st t)) =
       (if fst (should_render st t) then t else last_update_time st)"
  by (simp add: should_render_def)

theorem render_throttle_witness:
  "(case should_render init_plot 1000 of (r1, st1) \<Rightarrow>
    case should_render st1 1015 of (r2, st2) \<Rightarrow>
    case should_render st2 1021 of (r3, st3) \<Rightarrow>
      r1 \<and> \<not> r2 \<and> r3 \<and> last_update_time st1 = 1000 \<and> last_update_time st2 = 1000
      \<and> last_update_time st3 = 1021)"
  using render_throttle [of init_plot 1000 1015 1021]
  by (simp add: init_plot_def)

section \<open>What the patterns match\<close>

text \<open>
  The equation of \<open>findall\<close> is applied on demand only.  \<open>line_eval\<close> collects what
  is needed to evaluate the parser on a given line.
\<close>

declare findall.simps [simp del]

lemmas line_eval =
  parse_def patterns_def pattern1_def pattern2_def pattern3_def pattern4_def key_group_def
  number_group_def unit_suffix_def cps_def is_alnum_def is_digit_def is_space_def
  decimal_digit_def strip_def py_float_def unsigned_float_def Let_def findall.simps

lemma runs_sound: "r \<in> set (runs C s) \<Longrightarrow> \<exists>u. s = u @ r \<and> list_all C u"
proof (induction s)
  case Nil
  then show ?case by simp
next
  case (Cons c t)
  show ?case
  proof (cases "r = c # t")
    case True
    then show ?thesis by simp
  next
    case False
    with Cons.prems have "C c" "r \<in> set (runs C t)" by (auto split: if_splits)
    with Cons.IH obtain u where "t = u @ r" "list_all C u" by blast
    with \<open>C c\<close> have "c # t = (c # u) @ r \<and> list_all C (c # u)" by simp
    then show ?thesis by blast
  qed
qed

lemma in_rmatch_Seq:
  "(g, r) \<in> set (rmatch (Seq a b) s) \<longleftrightarrow>
     (\<exists>g1 s1 g2. (g1, s1) \<in> set (rmatch a s) \<and> (g2, r) \<in> set (rmatch b s1) \<and> g = g1 @ g2)"
  by force

lemma rmatch_lang: "(g, r) \<in> set (rmatch a s) \<Longrightarrow> \<exists>u\<in>lang a. s = u @ r"
proof (induction a arbitrary: s g r)
  case (Lit w)
  then show ?case by (auto split: if_splits) (metis append_take_drop_id)
next
  case (Seq a b)
  from Seq.prems obtain g1 s1 g2 where
    "(g1, s1) \<in> set (rmatch a s)" "(g2, r) \<in> set (rmatch b s1)"
    unfolding in_rmatch_Seq by blast
  with Seq.IH obtain u v where "u \<in> lang a" "s = u @ s1" "v \<in> lang b" "s1 = v @ r"
    by blast
  then have "u @ v \<in> lang (Seq a b)" "s = (u @ v) @ r" by auto
  then show ?case by blast
next
  case (Alt a b)
  from Alt.prems have "(g, r) \<in> set (rmatch a s) \<or> (g, r) \<in> set (rmatch b s)" by simp
  with Alt.IH show ?case by fastforce
next
  case (Opt a)
  from Opt.prems have "(g, r) \<in> set (rmatch a s) \<or> r = s" by auto
  with Opt.IH show ?case by fastforce
next
  case (Star C)
  then show ?case using runs_sound [of r C s] by auto
next
  case (Plus C)
  then obtain c t where s: "s = c # t" "C c" "r \<in> set (runs C t)"
    by (auto split: list.splits if_splits)
  with runs_sound [of r C t] obtain u where "t = u @ r" "list_all C u" by blast
  with s have "c # u \<in> lang (Plus C)" "s = (c # u) @ r" by simp_all
  then show ?case by blast
next
  case (Grp a)
  from Grp.prems obtain g0 where "(g0, r) \<in> set (rmatch a s)" by auto
  with Grp.IH show ?case by fastforce
qed

lemma rmatch_groupfree: "groupfree a \<Longrightarrow> (g, r) \<in> set (rmatch a s) \<Longrightarrow> g = []"
proof (induction a arbitrary: s g r)
  case (Seq a b)
  from Seq.prems(2) obtain g1 s1 g2 where
    "(g1, s1) \<in> set (rmatch a s)" "(g2, r) \<in> set (rmatch b s1)" "g = g1 @ g2"
    unfolding in_rmatch_Seq by blast
  with Seq.IH Seq.prems(1) show ?case by auto
qed (auto split: if_splits list.splits)

lemma rmatch_Grp:
  assumes "(g, r) \<in> set (rmatch (Grp a) s)" "groupfree a"
  shows "\<exists>u\<in>lang a. g = [u] \<and> s = u @ r"
proof -
  from assms(1) obtain g0 where g0: "(g0, r) \<in> set (rmatch a s)"
    "g = g0 @ [take (length s - length r) s]" by auto
  from rmatch_lang [OF g0(1)] obtain u where u: "u \<in> lang a" "s = u @ r" by blast
  from rmatch_groupfree [OF assms(2) g0(1)] g0(2) u show ?thesis by auto
qed

lemma is_digit_ascii: "is_digit U c \<Longrightarrow> c \<noteq> 45 \<and> c \<noteq> 46"
  by (auto simp: is_digit_def decimal_digit_def)

lemma decimal_value_digits:
  "list_all (is_digit U) ds \<Longrightarrow> \<exists>n. decimal_value U ds acc = Some n"
  by (induction ds arbitrary: acc) (auto simp: is_digit_def)

lemma takeWhile_digits:
  assumes "list_all (is_digit U) d"
  shows "takeWhile (\<lambda>c. c \<noteq> 46) (d @ 46 # e) = d"
    and "dropWhile (\<lambda>c. c \<noteq> 46) (d @ 46 # e) = 46 # e"
    and "takeWhile (\<lambda>c. c \<noteq> 46) d = d"
    and "dropWhile (\<lambda>c. c \<noteq> 46) d = []"
proof -
  have nd: "\<forall>c\<in>set d. c \<noteq> 46"
    using assms is_digit_ascii by (auto simp: list_all_iff)
  then show "takeWhile (\<lambda>c. c \<noteq> 46) (d @ 46 # e) = d"
    by (simp add: takeWhile_append2)
  from nd show "dropWhile (\<lambda>c. c \<noteq> 46) (d @ 46 # e) = 46 # e"
    by (simp add: dropWhile_append2)
  from nd show "takeWhile (\<lambda>c. c \<noteq> 46) d = d"
    by (simp add: takeWhile_eq_all_conv)
  from nd show "dropWhile (\<lambda>c. c \<noteq> 46) d = []"
    by simp
qed

lemma unsigned_float_digits:
  assumes "d \<noteq> []" "list_all (is_digit U) d"
    and "fr = [] \<or> (\<exists>e. fr = 46 # e \<and> e \<noteq> [] \<and> list_all (is_digit U) e)"
  shows "\<exists>x. unsigned_float U (d @ fr) = Some x"
proof (cases "fr = []")
  case True
  obtain i where "decimal_value U d 0 = Some i"
    using decimal_value_digits [OF assms(2)] by blast
  with True assms(1) show ?thesis
    by (simp add: unsigned_float_def takeWhile_digits(3,4) [OF assms(2)])
next
  case False
  with assms(3) obtain e where e: "fr = 46 # e" "e \<noteq> []" "list_all (is_digit U) e"
    by blast
  obtain i where "decimal_value U d 0 = Some i"
    using decimal_value_digits [OF assms(2)] by blast
  moreover obtain f where "decimal_value U e 0 = Some f"
    using decimal_value_digits [OF e(3)] by blast
  ultimately show ?thesis
    using assms(1) e(2)
    by (simp add: e(1) unsigned_float_def takeWhile_digits(1,2) [OF assms(2)])
qed

lemma number_group_body: "number_group U = Grp (number_body U)"
  by (simp add: number_group_def number_body_def)

lemma py_float_lang:
  assumes "v \<in> lang (number_body U)"
  shows "\<exists>x. py_float U v = Some x"
proof -
  from assms obtain sg d fr where v: "v = sg @ d @ fr" "sg = [] \<or> sg = [45]"
    "d \<noteq> []" "list_all (is_digit U) d"
    "fr = [] \<or> (\<exists>e. fr = 46 # e \<and> e \<noteq> [] \<and> list_all (is_digit U) e)"
    by (auto simp: number_body_def cps_def)
  from unsigned_float_digits [OF v(3,4,5)] obtain x where x: "unsigned_float U (d @ fr) = Some x"
    by blast
  from v(3) obtain c d' where d: "d = c # d'" by (cases d) auto
  with v(4) have "c \<noteq> 45" using is_digit_ascii by auto
  from v(2) show ?thesis
  proof
    assume "sg = []"
    with v(1) x d \<open>c \<noteq> 45\<close> show ?thesis by (simp add: py_float_def)
  next
    assume "sg = [45]"
    with v(1) x show ?thesis by (simp add: py_float_def)
  qed
qed

lemma is_alnum_not_space: "is_alnum c \<Longrightarrow> \<not> is_space U c"
  by (auto simp: is_alnum_def is_space_def)

lemma strip_alnum:
  assumes "k \<noteq> []" "list_all is_alnum k"
  shows "strip U k = k"
proof -
  from assms have "\<not> is_space U (hd k)" "\<not> is_space U (last k)"
    by (auto simp: list_all_iff is_alnum_not_space)
  with assms(1) have "dropWhile (is_space U) k = k" "dropWhile (is_space U) (rev k) = rev k"
    by (simp_all add: dropWhile_eq_self_iff hd_rev)
  then show ?thesis by (simp add: strip_def)
qed

lemma key_group_match:
  assumes "(g, r) \<in> set (rmatch key_group s)"
  shows "\<exists>k. g = [k] \<and> k \<noteq> [] \<and> strip U k = k"
proof -
  from rmatch_Grp [of g r "Plus is_alnum" s] assms
  obtain u where "u \<in> lang (Plus is_alnum)" "g = [u]" by (auto simp: key_group_def)
  then show ?thesis using strip_alnum [of u U] by auto
qed

lemma number_tail_group: "number_tail U (number_group U)"
  unfolding number_tail_def
proof (intro allI impI)
  fix g r s
  assume a: "(g, r) \<in> set (rmatch (number_group U) s)"
  have "groupfree (number_body U)" by (simp add: number_body_def)
  from rmatch_Grp [OF a [unfolded number_group_body] this]
  obtain u where "u \<in> lang (number_body U)" "g = [u]" by blast
  then show "\<exists>v x. g = [v] \<and> py_float U v = Some x" using py_float_lang by blast
qed

lemma number_tail_after:
  assumes "groupfree a" "number_tail U b"
  shows "number_tail U (Seq a b)"
  unfolding number_tail_def
proof (intro allI impI)
  fix g r s
  assume "(g, r) \<in> set (rmatch (Seq a b) s)"
  then obtain g1 s1 g2 where m: "(g1, s1) \<in> set (rmatch a s)" "(g2, r) \<in> set (rmatch b s1)"
    "g = g1 @ g2" unfolding in_rmatch_Seq by blast
  from rmatch_groupfree [OF assms(1) m(1)] have "g1 = []" .
  moreover from assms(2) m(2) obtain v x where "g2 = [v]" "py_float U v = Some x"
    unfolding number_tail_def by blast
  ultimately show "\<exists>v x. g = [v] \<and> py_float U v = Some x"
    using m(3) by simp
qed

lemma number_tail_before:
  assumes "number_tail U a" "groupfree b"
  shows "number_tail U (Seq a b)"
  unfolding number_tail_def
proof (intro allI impI)
  fix g r s
  assume "(g, r) \<in> set (rmatch (Seq a b) s)"
  then obtain g1 s1 g2 where m: "(g1, s1) \<in> set (rmatch a s)" "(g2, r) \<in> set (rmatch b s1)"
    "g = g1 @ g2" unfolding in_rmatch_Seq by blast
  from rmatch_groupfree [OF assms(2) m(2)] have "g2 = []" .
  moreover from assms(1) m(1) obtain v x where "g1 = [v]" "py_float U v = Some x"
    unfolding number_tail_def by blast
  ultimately show "\<exists>v x. g = [v] \<and> py_float U v = Some x"
    using m(3) by simp
qed

lemma key_then_number:
  assumes "number_tail U b" "(g, r) \<in> set (rmatch (Seq key_group b) s)"
  shows "key_number U g"
proof -
  from assms(2) obtain g1 s1 g2 where m: "(g1, s1) \<in> set (rmatch key_group s)"
    "(g2, r) \<in> set (rmatch b s1)" "g = g1 @ g2" unfolding in_rmatch_Seq by blast
  from key_group_match [OF m(1)] obtain k where k: "g1 = [k]" "k \<noteq> []" "strip U k = k"
    by blast
  from assms(1) m(2) obtain v x where "g2 = [v]" "py_float U v = Some x"
    unfolding number_tail_def by blast
  with k m(3) show ?thesis unfolding key_number_def by simp
qed

lemma groupfree_unit_suffix: "groupfree unit_suffix"
  by (simp add: unit_suffix_def)

lemma rmatch_patterns:
  assumes "p \<in> set (patterns U)" "(g, r) \<in> set (rmatch p s)"
  shows "key_number U g"
proof -
  note tl = number_tail_group number_tail_after number_tail_before groupfree_unit_suffix
            groupfree.simps
  from assms(1) consider "p = pattern1 U" | "p = pattern2 U" | "p = pattern3 U" | "p = pattern4 U"
    by (auto simp: patterns_def)
  then show ?thesis
  proof cases
    case 1
    have "number_tail U (Seq (Lit (cps '':'')) (Seq (Star (is_space U)) (number_group U)))"
      by (intro number_tail_after number_tail_group) simp_all
    from key_then_number [OF this] assms(2) 1 show ?thesis by (simp only: pattern1_def)
  next
    case 2
    have "number_tail U (Seq (Star (is_space U)) (Seq (Lit (cps ''=''))
       (Seq (Star (is_space U)) (number_group U))))"
      by (intro number_tail_after number_tail_group) simp_all
    from key_then_number [OF this] assms(2) 2 show ?thesis by (simp only: pattern2_def)
  next
    case 3
    have "number_tail U (Seq (Star (is_space U)) (Seq (Lit (cps '':''))
       (Seq (Star (is_space U)) (Seq (number_group U) unit_suffix))))"
      by (intro number_tail_after number_tail_before number_tail_group groupfree_unit_suffix)
         simp_all
    from key_then_number [OF this] assms(2) 3 show ?thesis by (simp only: pattern3_def)
  next
    case 4
    have "number_tail U (Seq (Star (is_space U)) (Seq (Lit (cps ''=''))
       (Seq (Star (is_space U)) (Seq (number_group U) unit_suffix))))"
      by (intro number_tail_after number_tail_before number_tail_group groupfree_unit_suffix)
         simp_all
    from key_then_number [OF this] assms(2) 4 show ?thesis by (simp only: pattern4_def)
  qed
qed

lemma findall_sound:
  "m \<in> set (findall r s) \<Longrightarrow> \<exists>s' rest. (m, rest) \<in> set (rmatch r s')"
proof (induction r s rule: findall.induct)
  case (1 r s)
  show ?case
  proof (cases "rmatch r s")
    case Nil
    with "1.prems" obtain c t where s: "s = c # t" and m: "m \<in> set (findall r t)"
      by (subst (asm) findall.simps) (auto split: list.splits simp del: findall.simps)
    from "1.IH"(1) [OF Nil s m] show ?thesis .
  next
    case (Cons a as)
    obtain g rest where a: "a = (g, rest)" by (cases a)
    show ?thesis
    proof (cases "m = g")
      case True
      with Cons a have "(m, rest) \<in> set (rmatch r s)" by simp
      then show ?thesis by blast
    next
      case False
      show ?thesis
      proof (cases "length rest < length s")
        case lt: True
        with "1.prems" Cons a False have "m \<in> set (findall r rest)"
          by (subst (asm) findall.simps) (auto simp del: findall.simps)
        from "1.IH"(2) [OF Cons a [symmetric] lt this] show ?thesis .
      next
        case ge: False
        with "1.prems" Cons a False obtain c t where s: "s = c # t"
          and m: "m \<in> set (findall r t)"
          by (subst (asm) findall.simps) (auto split: list.splits simp del: findall.simps)
        from "1.IH"(3) [OF Cons a [symmetric] ge s m] show ?thesis .
      qed
    qed
  qed
qed

lemma findall_patterns:
  "p \<in> set (patterns U) \<Longrightarrow> m \<in> set (findall p s) \<Longrightarrow> key_number U m"
  using findall_sound rmatch_patterns by blast

lemma py_float_number:
  "p \<in> set (patterns U) \<Longrightarrow> [k, v] \<in> set (findall p s) \<Longrightarrow> \<exists>x. py_float U v = Some x"
  using findall_patterns [of p U "[k, v]" s] by (auto simp: key_number_def)

lemma store_match_nonempty: "vals \<noteq> [] \<Longrightarrow> store_match U vals m \<noteq> []"
  by (cases "(U, vals, m)" rule: store_match.cases) (auto split: option.splits)

lemma store_matches_nonempty: "vals \<noteq> [] \<Longrightarrow> store_matches U vals ms \<noteq> []"
  by (induction ms arbitrary: vals) (simp_all add: store_match_nonempty)

lemma store_match_key_number:
  "key_number U m \<Longrightarrow> store_match U vals m \<noteq> []"
  by (auto simp: key_number_def)

lemma store_matches_key_number:
  assumes "ms \<noteq> []" "\<forall>m\<in>set ms. key_number U m"
  shows "store_matches U [] ms \<noteq> []"
proof -
  from assms obtain m ms' where "ms = m # ms'" "key_number U m" by (cases ms) auto
  then show ?thesis
    by (simp add: store_matches_nonempty store_match_key_number)
qed

lemma store_matches_append:
  "store_matches U vals (a @ b) = store_matches U (store_matches U vals a) b"
  by (induction a arbitrary: vals) simp_all

lemma store_matches_other_keys:
  assumes "\<forall>m\<in>set ms. key_number U m \<and> hd m \<noteq> k"
  shows "map_of (store_matches U vals ms) k = map_of vals k"
  using assms
proof (induction ms arbitrary: vals)
  case Nil
  then show ?case by simp
next
  case (Cons m ms)
  from Cons.prems obtain k' v x where m: "m = [k', v]" "strip U k' = k'" "py_float U v = Some x"
    "k' \<noteq> k" by (auto simp: key_number_def)
  have "map_of (store_match U vals m) k = map_of vals k"
    using m by (simp add: update_conv')
  with Cons show ?case by simp
qed

lemma findall_empty_line: "p \<in> set (patterns U) \<Longrightarrow> findall p [] = []"
  by (auto simp: patterns_def pattern1_def pattern2_def pattern3_def pattern4_def key_group_def
                findall.simps)

lemma try_patterns_first:
  "i < length ps \<Longrightarrow> \<forall>j<i. findall (ps ! j) line = [] \<Longrightarrow> findall (ps ! i) line \<noteq> [] \<Longrightarrow>
   try_patterns U ps line = store_matches U [] (findall (ps ! i) line)"
proof (induction ps arbitrary: i)
  case Nil
  then show ?case by simp
next
  case (Cons p ps)
  show ?case
  proof (cases i)
    case 0
    with Cons.prems show ?thesis by (simp add: Let_def)
  next
    case (Suc n)
    with Cons.prems have "findall p line = []" by auto
    moreover from Suc Cons.prems have "n < length ps" "\<forall>j<n. findall (ps ! j) line = []"
      "findall (ps ! n) line \<noteq> []" by auto
    ultimately show ?thesis
      using Cons.IH [of n] Suc by (simp add: Let_def)
  qed
qed

lemma try_patterns_empty_iff:
  assumes "\<forall>p\<in>set ps. \<forall>m\<in>set (findall p line). key_number U m"
  shows "try_patterns U ps line = [] \<longleftrightarrow> (\<forall>p\<in>set ps. findall p line = [])"
  using assms
proof (induction ps)
  case Nil
  then show ?case by simp
next
  case (Cons p ps)
  show ?case
  proof (cases "findall p line = []")
    case True
    with Cons show ?thesis by (simp add: Let_def)
  next
    case False
    with Cons.prems have "store_matches U [] (findall p line) \<noteq> []"
      by (intro store_matches_key_number) auto
    with False show ?thesis by (simp add: Let_def)
  qed
qed

lemma parse_empty_iff:
  "parse U line0 = [] \<longleftrightarrow> (\<forall>p\<in>set (patterns U). findall p (strip U line0) = [])"
proof (cases "strip U line0 = []")
  case True
  then show ?thesis using findall_empty_line by (simp add: parse_def)
next
  case False
  then show ?thesis
    using try_patterns_empty_iff [of "patterns U" "strip U line0" U] findall_patterns
    by (auto simp: parse_def Let_def)
qed

lemma parse_first:
  assumes "i < length (patterns U)" "\<forall>j<i. findall (patterns U ! j) (strip U line0) = []"
    "findall (patterns U ! i) (strip U line0) \<noteq> []"
  shows "parse U line0 = store_matches U [] (findall (patterns U ! i) (strip U line0))"
proof -
  from assms(1) have "patterns U ! i \<in> set (patterns U)" by simp
  with assms(3) findall_empty_line have "strip U line0 \<noteq> []" by metis
  then show ?thesis
    using try_patterns_first [OF assms] by (simp add: parse_def Let_def)
qed

lemma parse_last_occurrence:
  assumes "i < length (patterns U)" "\<forall>j<i. findall (patterns U ! j) (strip U line0) = []"
    "findall (patterns U ! i) (strip U line0) = ms1 @ [k, v] # ms2"
    "\<forall>m\<in>set ms2. hd m \<noteq> k"
  shows "\<exists>x. py_float U v = Some x \<and> map_of (parse U line0) k = Some x"
proof -
  let ?ms = "findall (patterns U ! i) (strip U line0)"
  from assms(1) have p: "patterns U ! i \<in> set (patterns U)" by simp
  have kn: "\<forall>m\<in>set ?ms. key_number U m"
    using findall_patterns [OF p] by blast
  from kn assms(3) have "key_number U [k, v]" by simp
  then obtain x where x: "strip U k = k" "py_float U v = Some x" by (auto simp: key_number_def)
  from kn assms(3,4) have o: "\<forall>m\<in>set ms2. key_number U m \<and> hd m \<noteq> k" by simp
  from assms(3) have "?ms \<noteq> []" by simp
  from parse_first [OF assms(1,2) this]
  have "parse U line0 = store_matches U (store_match U (store_matches U [] ms1) [k, v]) ms2"
    by (simp add: assms(3) store_matches_append)
  then have "map_of (parse U line0) k = map_of (store_match U (store_matches U [] ms1) [k, v]) k"
    using store_matches_other_keys [OF o] by simp
  also have "\<dots> = Some x" using x by (simp add: update_conv')
  finally show ?thesis using x(2) by blast
qed

section \<open>The sample buffers\<close>

lemma parse_D_colon: "parse U (cps ''D:12.5'') = [(cps ''D'', 25 / 2)]"
  by (simp add: line_eval)

lemma distinct_fields: "distinct fields"
  by (simp add: fields_def cps_def)

lemma append_fields_all:
  "distinct fs \<Longrightarrow> \<forall>f\<in>set fs. bufs f \<noteq> None \<Longrightarrow>
   append_fields n vals fs bufs =
     ((\<lambda>f. if f \<in> set fs then Some (deque_append n (the (bufs f)) (cell_of vals f))
            else bufs f), True)"
proof (induction fs arbitrary: bufs)
  case Nil
  then show ?case by simp
next
  case (Cons f fs)
  from Cons.prems obtain buf where buf: "bufs f = Some buf" by auto
  let ?bufs = "bufs(f \<mapsto> deque_append n buf (cell_of vals f))"
  have "append_fields n vals fs ?bufs =
     ((\<lambda>g. if g \<in> set fs then Some (deque_append n (the (?bufs g)) (cell_of vals g))
            else ?bufs g), True)"
    using Cons.prems by (intro Cons.IH) auto
  with buf Cons.prems show ?case
    by (auto simp: cell_of_def fun_eq_iff)
qed

lemma handle_line_parse:
  "handle_line U st line0 t1 t2 =
     (if parse U line0 = [] then st
      else case append_sample st (parse U line0) t1 of
             (st1, False) \<Rightarrow> st1
           | (st1, True) \<Rightarrow> snd (should_render st1 (t2 * 1000)))"
  by (simp add: handle_line_def parse_def Let_def)

lemma append_sample_all:
  assumes "\<forall>f\<in>set fields. data_buffers st f \<noteq> None"
  shows "append_sample st vals t =
     (st\<lparr>sample_indices := deque_append (max_samples st) (sample_indices st) (next_idx st),
         timestamps := deque_append (max_samples st) (timestamps st) t,
         data_buffers := (\<lambda>f. if f \<in> set fields
            then Some (deque_append (max_samples st) (the (data_buffers st f)) (cell_of vals f))
            else data_buffers st f)\<rparr>, True)"
  using assms
  by (simp add: append_sample_def Let_def append_fields_all distinct_fields next_idx_def)

lemma should_render_keeps [simp]:
  "sample_indices (snd (should_render st t)) = sample_indices st"
  "timestamps (snd (should_render st t)) = timestamps st"
  "data_buffers (snd (should_render st t)) = data_buffers st"
  "max_samples (snd (should_render st t)) = max_samples st"
  by (simp_all add: should_render_def)

lemma handle_line_appended:
  assumes "parse U line0 \<noteq> []" "\<forall>f\<in>set fields. data_buffers st f \<noteq> None"
  shows "sample_indices (handle_line U st line0 t1 t2) =
           deque_append (max_samples st) (sample_indices st) (next_idx st)"
    and "timestamps (handle_line U st line0 t1 t2) =
           deque_append (max_samples st) (timestamps st) t1"
    and "data_buffers (handle_line U st line0 t1 t2) =
           (\<lambda>f. if f \<in> set fields
            then Some (deque_append (max_samples st) (the (data_buffers st f))
                         (cell_of (parse U line0) f))
            else data_buffers st f)"
    and "max_samples (handle_line U st line0 t1 t2) = max_samples st"
  using assms by (simp_all add: handle_line_parse append_sample_all)

lemma length_deque_append:
  "length (deque_append n xs x) = (if n < Suc (length xs) then length xs else Suc (length xs))"
  by (simp add: deque_append_def Let_def)

lemma store_inv_bufs: "store_inv st \<Longrightarrow> \<forall>f\<in>set fields. data_buffers st f \<noteq> None"
  by (auto simp: store_inv_def list_all_iff split: option.splits)

lemma store_inv_handle_line:
  assumes "store_inv st"
  shows "store_inv (handle_line U st line0 t1 t2)"
proof (cases "parse U line0 = []")
  case True
  with assms show ?thesis by (simp add: handle_line_parse)
next
  case False
  note h = handle_line_appended [OF False store_inv_bufs [OF assms]]
  from assms show ?thesis
    unfolding store_inv_def list_all_iff h
    by (auto simp: length_deque_append split: option.splits)
qed

lemma store_inv_clear_data: "store_inv st \<Longrightarrow> store_inv (clear_data st r)"
  by (auto simp: store_inv_def clear_data_def list_all_iff split: option.splits)

lemma store_inv_init: "store_inv init_plot"
  by (simp add: store_inv_def init_plot_def fields_def cps_def)

lemma last_deque_append: "0 < n \<Longrightarrow> last (deque_append n xs x) = x"
  by (cases xs) (simp_all add: deque_append_def Let_def)

lemma sample_indices_append_sample:
  "sample_indices (fst (append_sample st vals t)) =
     deque_append (max_samples st) (sample_indices st) (next_idx st)"
  by (simp add: append_sample_def Let_def next_idx_def split: prod.splits)

lemma sample_indices_handle_line:
  "parse U line0 \<noteq> [] \<Longrightarrow>
   sample_indices (handle_line U st line0 t1 t2) =
     deque_append (max_samples st) (sample_indices st) (next_idx st)"
  using sample_indices_append_sample [of st "parse U line0" t1]
  by (auto simp: handle_line_parse split: prod.splits bool.splits)

lemma deque_append_drop:
  assumes "length xs = n"
  shows "deque_append c (drop (n - c) xs) x = drop (Suc n - c) (xs @ [x])"
proof (cases "n < c")
  case True
  with assms show ?thesis by (simp add: deque_append_def Let_def)
next
  case False
  show ?thesis
  proof (cases "c = 0")
    case True
    with assms show ?thesis by (simp add: deque_append_def Let_def)
  next
    case c: False
    with False assms have ne: "drop (n - c) xs \<noteq> []" by auto
    have s: "Suc n - c = Suc (n - c)" using False by simp
    have "tl (drop (n - c) xs @ [x]) = tl (drop (n - c) xs) @ [x]"
      using ne by simp
    also have "\<dots> = drop (Suc (n - c)) xs @ [x]"
      by (simp add: drop_Suc tl_drop)
    also have "\<dots> = drop (Suc (n - c)) (xs @ [x])"
      using assms False c by simp
    finally show ?thesis
      using assms False by (simp add: deque_append_def Let_def s)
  qed
qed

lemma feed_snoc:
  "feed U st (xs @ [(line, t1, t2)]) = handle_line U (feed U st xs) line t1 t2"
  by (induction xs arbitrary: st) auto

lemma next_index_series:
  assumes "length old = l" "base = (if old \<noteq> [] then last old + 1 else 0)"
  shows "deque_append c (drop (l + n - c) (old @ map (\<lambda>i. base + int i) [0..<n]))
           (if drop (l + n - c) (old @ map (\<lambda>i. base + int i) [0..<n]) \<noteq> []
            then last (drop (l + n - c) (old @ map (\<lambda>i. base + int i) [0..<n])) + 1 else 0)
         = drop (l + Suc n - c) (old @ map (\<lambda>i. base + int i) [0..<Suc n])"
proof -
  let ?ys = "old @ map (\<lambda>i. base + int i) [0..<n]"
  have len: "length ?ys = l + n" using assms(1) by simp
  show ?thesis
  proof (cases "c = 0 \<or> ?ys = []")
    case True
    then show ?thesis
    proof
      assume "c = 0"
      with len show ?thesis by (simp add: deque_append_def Let_def)
    next
      assume "?ys = []"
      with assms have "old = []" "n = 0" "base = 0" "l = 0" by auto
      then show ?thesis by (simp add: deque_append_def Let_def)
    qed
  next
    case False
    then have c: "0 < c" and ne: "?ys \<noteq> []" by auto
    from ne len have pos: "0 < l + n" by auto
    with c have "l + n - c < length ?ys" using len by simp
    then have dne: "drop (l + n - c) ?ys \<noteq> []"
      by (metis drop_eq_Nil not_le)
    have "last (drop (l + n - c) ?ys) = last ?ys"
      using \<open>l + n - c < length ?ys\<close> by (intro last_drop)
    also have "last ?ys + 1 = base + int n"
    proof (cases "n = 0")
      case True
      with ne assms show ?thesis by simp
    next
      case False
      then have "[0..<n] = [0..<n - 1] @ [n - 1]"
        by (metis Suc_diff_1 not_gr_zero upt_Suc_append zero_le)
      then have "last ?ys = base + int (n - 1)" by (simp add: last_append)
      with False show ?thesis by simp
    qed
    finally have idx: "last (drop (l + n - c) ?ys) + 1 = base + int n" by simp
    have "deque_append c (drop (l + n - c) ?ys) (base + int n)
            = drop (Suc (l + n) - c) (?ys @ [base + int n])"
      using deque_append_drop [of ?ys "l + n" c "base + int n"] len by simp
    with dne idx show ?thesis by simp
  qed
qed

lemma feed_from:
  assumes "store_inv st" "length (sample_indices st) \<le> max_samples st"
    "\<forall>x\<in>set xs. parse U (fst x) \<noteq> []"
  shows "sample_indices (feed U st xs) =
           drop (length (sample_indices st) + length xs - max_samples st)
             (sample_indices st @ map (\<lambda>i. next_idx st + int i) [0..<length xs])
    \<and> timestamps (feed U st xs) =
           drop (length (sample_indices st) + length xs - max_samples st)
             (timestamps st @ map (\<lambda>x. fst (snd x)) xs)
    \<and> (\<forall>f\<in>set fields. data_buffers (feed U st xs) f =
          Some (drop (length (sample_indices st) + length xs - max_samples st)
                  (the (data_buffers st f) @ map (\<lambda>x. cell_of (parse U (fst x)) f) xs)))
    \<and> max_samples (feed U st xs) = max_samples st"
  using assms(3)
proof (induction xs rule: rev_induct)
  case Nil
  from assms(1) have "\<forall>f\<in>set fields. \<exists>buf. data_buffers st f = Some buf
      \<and> length buf = length (sample_indices st)"
    by (auto simp: store_inv_def list_all_iff split: option.splits)
  moreover from assms(1) have "length (timestamps st) = length (sample_indices st)"
    by (simp add: store_inv_def)
  ultimately show ?case using assms(2) by auto
next
  case (snoc x xs)
  obtain line t1 t2 where x: "x = (line, t1, t2)" by (cases x) auto
  let ?st = "feed U st xs"
  let ?l = "length (sample_indices st)"
  let ?k = "?l + length xs - max_samples st"
  from snoc have ih:
    "sample_indices ?st =
       drop ?k (sample_indices st @ map (\<lambda>i. next_idx st + int i) [0..<length xs])"
    "timestamps ?st = drop ?k (timestamps st @ map (\<lambda>x. fst (snd x)) xs)"
    "\<forall>f\<in>set fields. data_buffers ?st f =
       Some (drop ?k (the (data_buffers st f) @ map (\<lambda>x. cell_of (parse U (fst x)) f) xs))"
    "max_samples ?st = max_samples st"
    by simp_all
  from snoc.prems x have p: "parse U line \<noteq> []" by simp
  from ih(3) have b: "\<forall>f\<in>set fields. data_buffers ?st f \<noteq> None" by simp
  note h = handle_line_appended [OF p b, of t1 t2]
  have lt: "length (timestamps st) = ?l"
    using assms(1) by (simp add: store_inv_def)
  have lb: "length (the (data_buffers st f)) = ?l" if "f \<in> set fields" for f
    using assms(1) that by (auto simp: store_inv_def list_all_iff split: option.splits)
  have "sample_indices (feed U st (xs @ [x])) =
          deque_append (max_samples st) (sample_indices ?st)
            (if sample_indices ?st \<noteq> [] then last (sample_indices ?st) + 1 else 0)"
    unfolding x feed_snoc h(1) ih(4) next_idx_def ..
  also have "\<dots> = drop (?l + Suc (length xs) - max_samples st)
               (sample_indices st @ map (\<lambda>i. next_idx st + int i) [0..<Suc (length xs)])"
    unfolding ih(1) by (rule next_index_series) (simp_all add: next_idx_def)
  finally have 1: "sample_indices (feed U st (xs @ [x])) =
             drop (?l + length (xs @ [x]) - max_samples st)
               (sample_indices st @ map (\<lambda>i. next_idx st + int i) [0..<length (xs @ [x])])"
    by simp
  have 2: "timestamps (feed U st (xs @ [x])) =
             drop (?l + length (xs @ [x]) - max_samples st)
               (timestamps st @ map (\<lambda>x. fst (snd x)) (xs @ [x]))"
    unfolding x feed_snoc h(2) ih(4) ih(2)
    using deque_append_drop [of "timestamps st @ map (\<lambda>x. fst (snd x)) xs" "?l + length xs"
                                "max_samples st" t1] lt
    by simp
  have 3: "data_buffers (feed U st (xs @ [x])) f =
          Some (drop (?l + length (xs @ [x]) - max_samples st)
                  (the (data_buffers st f) @ map (\<lambda>x. cell_of (parse U (fst x)) f) (xs @ [x])))"
    if "f \<in> set fields" for f
    unfolding x feed_snoc h(3) ih(4)
    using that ih(3) lb [OF that]
      deque_append_drop [of "the (data_buffers st f) @ map (\<lambda>x. cell_of (parse U (fst x)) f) xs"
                            "?l + length xs" "max_samples st" "cell_of (parse U line) f"]
    by simp
  have 4: "max_samples (feed U st (xs @ [x])) = max_samples st"
    unfolding x feed_snoc h(4) ih(4) ..
  from 1 2 3 4 show ?case by blast
qed

text \<open>
  C3.  When a line with at least one parsed value is handled (and the buffers can hold
  at least one sample), the index stored last is the index stored last before plus one,
  or 0 when the index series was empty; after a confirmed \<^verbatim>\<open>clear_data\<close> the index
  series consists of the index 0 alone.
\<close>

theorem next_index:
  "0 < max_samples st \<and> parse U line0 \<noteq> [] \<longrightarrow>
     last (sample_indices (handle_line U st line0 t1 t2)) =
       (if sample_indices st = [] then 0 else last (sample_indices st) + 1)
     \<and> sample_indices (handle_line U (clear_data st Yes) line0 t1 t2) = [0]"
  by (simp add: sample_indices_handle_line last_deque_append next_idx_def)
     (simp add: clear_data_def deque_append_def)

theorem next_index_witness:
  "last (sample_indices (handle_line ascii_db init_plot (cps ''D:12.5'') 1 1)) = 0
   \<and> sample_indices (handle_line ascii_db (clear_data init_plot Yes) (cps ''D:12.5'') 1 1) = [0]"
  using next_index [where st = init_plot and U = ascii_db and ?line0.0 = "cps ''D:12.5''"
      and ?t1.0 = 1 and ?t2.0 = 1]
  by (simp add: parse_D_colon) (simp add: init_plot_def)

text \<open>
  C4.  The invariant \<open>store_inv\<close> (every known field has a buffer; all buffers, the
  index series and the time stamp series have the same length) holds after
  \<^verbatim>\<open>__init__\<close> and is preserved by \<^verbatim>\<open>handle_line\<close>, whatever the line, and by
  \<^verbatim>\<open>clear_data\<close>, whatever the answer.  The cell appended for a field is the parsed
  number, or \<^verbatim>\<open>NaN\<close> when the line has no value for the field.
\<close>

theorem store_invariant:
  "store_inv init_plot
   \<and> (store_inv st \<longrightarrow>
        store_inv (handle_line U st line0 t1 t2) \<and> store_inv (clear_data st r)
        \<and> (parse U line0 \<noteq> [] \<and> 0 < max_samples st \<longrightarrow>
             (\<forall>f\<in>set fields. \<exists>buf. data_buffers (handle_line U st line0 t1 t2) f = Some buf
                 \<and> last buf = cell_of (parse U line0) f)))"
proof -
  have "\<forall>f\<in>set fields. \<exists>buf. data_buffers (handle_line U st line0 t1 t2) f = Some buf
                 \<and> last buf = cell_of (parse U line0) f"
    if "store_inv st" "parse U line0 \<noteq> []" "0 < max_samples st"
    using that handle_line_appended(3) [OF that(2) store_inv_bufs [OF that(1)]]
    by (simp add: last_deque_append)
  then show ?thesis
    using store_inv_init store_inv_handle_line store_inv_clear_data by blast
qed

theorem store_invariant_witness:
  "store_inv (handle_line ascii_db init_plot (cps ''D:12.5'') 1 1)
   \<and> store_inv (clear_data init_plot Yes)
   \<and> (\<exists>buf. data_buffers (handle_line ascii_db init_plot (cps ''D:12.5'') 1 1) (cps ''D'')
                = Some buf \<and> last buf = Num (25 / 2))
   \<and> (\<exists>buf. data_buffers (handle_line ascii_db init_plot (cps ''D:12.5'') 1 1) (cps ''fom'')
                = Some buf \<and> last buf = NaN)"
proof -
  have m: "0 < max_samples init_plot" by (simp add: init_plot_def)
  have f: "cps ''D'' \<in> set fields" "cps ''fom'' \<in> set fields"
    by (simp_all add: fields_def)
  have c: "cell_of [(cps ''D'', 25 / 2)] (cps ''D'') = Num (25 / 2)"
          "cell_of [(cps ''D'', 25 / 2)] (cps ''fom'') = NaN"
    by (simp_all add: cell_of_def cps_def)
  from m f c show ?thesis
    using store_invariant [where st = init_plot and U = ascii_db and ?line0.0 = "cps ''D:12.5''"
      and ?t1.0 = 1 and ?t2.0 = 1 and r = Yes]
    by (simp add: parse_D_colon) metis
qed

text \<open>
  C2.  Let the series be equally long and not longer than \<open>max_samples\<close>.  After \<open>N\<close>
  lines that each yield a sample, with \<open>N\<close> greater than \<open>max_samples\<close>, the index
  series holds the indices of the last \<open>max_samples\<close> of these samples (the \<open>i\<close>-th
  sample has the index that the first one got plus \<open>i\<close>), so it has \<open>max_samples\<close>
  entries in increasing order, and the time stamps and the cells of every field are
  those of the last \<open>max_samples\<close> lines, in the order of arrival.  A sample appended
  to full series removes the oldest entry: the series becomes its tail followed by the
  new entry.
\<close>

theorem rolling_buffer:
  "(store_inv st \<and> length (sample_indices st) \<le> max_samples st
      \<and> (\<forall>x\<in>set xs. parse U (fst x) \<noteq> []) \<and> max_samples st < length xs \<longrightarrow>
      sample_indices (feed U st xs) =
        map (\<lambda>i. next_idx st + int i) [length xs - max_samples st..<length xs]
      \<and> length (sample_indices (feed U st xs)) = max_samples st
      \<and> timestamps (feed U st xs) =
          drop (length xs - max_samples st) (map (\<lambda>x. fst (snd x)) xs)
      \<and> (\<forall>f\<in>set fields. data_buffers (feed U st xs) f =
            Some (drop (length xs - max_samples st)
                    (map (\<lambda>x. cell_of (parse U (fst x)) f) xs))))
   \<and> (parse U line0 \<noteq> [] \<and> 0 < max_samples st
        \<and> length (sample_indices st) = max_samples st \<longrightarrow>
      sample_indices (handle_line U st line0 t1 t2) =
        tl (sample_indices st) @ [last (sample_indices st) + 1])"
proof -
  have a: "sample_indices (feed U st xs) =
        map (\<lambda>i. next_idx st + int i) [length xs - max_samples st..<length xs]
      \<and> length (sample_indices (feed U st xs)) = max_samples st
      \<and> timestamps (feed U st xs) =
          drop (length xs - max_samples st) (map (\<lambda>x. fst (snd x)) xs)
      \<and> (\<forall>f\<in>set fields. data_buffers (feed U st xs) f =
            Some (drop (length xs - max_samples st)
                    (map (\<lambda>x. cell_of (parse U (fst x)) f) xs)))"
    if h: "store_inv st" "length (sample_indices st) \<le> max_samples st"
      "\<forall>x\<in>set xs. parse U (fst x) \<noteq> []" "max_samples st < length xs"
  proof -
    have lt: "length (timestamps st) = length (sample_indices st)"
      using h(1) by (simp add: store_inv_def)
    have lb: "length (the (data_buffers st f)) = length (sample_indices st)"
      if "f \<in> set fields" for f
      using h(1) that by (auto simp: store_inv_def list_all_iff split: option.splits)
    note f = feed_from [OF h(1,2,3)]
    have 1: "sample_indices (feed U st xs) =
        map (\<lambda>i. next_idx st + int i) [length xs - max_samples st..<length xs]"
      using f h(4) by (simp add: drop_map)
    have 2: "timestamps (feed U st xs) =
          drop (length xs - max_samples st) (map (\<lambda>x. fst (snd x)) xs)"
      using f h(4) lt by simp
    have 3: "data_buffers (feed U st xs) f =
            Some (drop (length xs - max_samples st)
                    (map (\<lambda>x. cell_of (parse U (fst x)) f) xs))" if "f \<in> set fields" for f
      using f h(4) lb [OF that] that by simp
    from 1 h(4) have 4: "length (sample_indices (feed U st xs)) = max_samples st" by simp
    from 1 2 3 4 show ?thesis by blast
  qed
  have b: "sample_indices (handle_line U st line0 t1 t2) =
        tl (sample_indices st) @ [last (sample_indices st) + 1]"
    if "parse U line0 \<noteq> []" "0 < max_samples st" "length (sample_indices st) = max_samples st"
  proof -
    from that have "sample_indices st \<noteq> []" by auto
    with that show ?thesis
      by (simp add: sample_indices_handle_line deque_append_def Let_def next_idx_def)
  qed
  from a b show ?thesis by blast
qed

theorem rolling_buffer_witness:
  "sample_indices (feed ascii_db init_plot (replicate 501 (cps ''D:12.5'', 0, 0))) =
     map int [1..<501]
   \<and> length (sample_indices (feed ascii_db init_plot (replicate 501 (cps ''D:12.5'', 0, 0)))) = 500
   \<and> sample_indices
       (handle_line ascii_db (init_plot\<lparr>max_samples := 2, sample_indices := [7, 8]\<rparr>)
          (cps ''D:12.5'') 0 0) = [8, 9]"
proof -
  let ?xs = "replicate 501 (cps ''D:12.5'', 0::real, 0::real)"
  let ?st = "init_plot\<lparr>max_samples := 2, sample_indices := [7, 8]\<rparr>"
  have m: "max_samples init_plot = 500" "sample_indices init_plot = []"
    "next_idx init_plot = 0"
    by (simp_all add: init_plot_def next_idx_def)
  have a: "sample_indices (feed ascii_db init_plot ?xs) = map int [1..<501]
           \<and> length (sample_indices (feed ascii_db init_plot ?xs)) = 500"
    using rolling_buffer [where st = init_plot and U = ascii_db and xs = ?xs] store_inv_init m
    by (simp add: parse_D_colon del: upt_rec_numeral)
  have b: "sample_indices (handle_line ascii_db ?st (cps ''D:12.5'') 0 0) = [8, 9]"
    using rolling_buffer [where st = ?st and U = ascii_db and ?line0.0 = "cps ''D:12.5''"
        and xs = "[]" and ?t1.0 = 0 and ?t2.0 = 0]
    by (simp add: parse_D_colon)
  from a b show ?thesis by simp
qed

section \<open>Parsing of lines\<close>

lemma findall_D_colon: "findall (pattern1 U) (cps ''D:12.5'') = [[cps ''D'', cps ''12.5'']]"
  by (simp add: line_eval)

lemma findall_D_equals: "findall (pattern2 U) (cps ''D=12.5'') = [[cps ''D'', cps ''12.5'']]"
  by (simp add: line_eval)

lemma findall_D_colon_cm: "findall (pattern3 U) (cps ''D:12.5cm'') = [[cps ''D'', cps ''12.5'']]"
  by (simp add: line_eval)

lemma findall_D_equals_cm: "findall (pattern4 U) (cps ''D=12.5cm'') = [[cps ''D'', cps ''12.5'']]"
  by (simp add: line_eval)

lemma parse_D_equals: "parse U (cps ''D=12.5'') = [(cps ''D'', 25 / 2)]"
  by (simp add: line_eval)

lemma parse_D_colon_cm: "parse U (cps ''D:12.5cm'') = [(cps ''D'', 25 / 2)]"
  by (simp add: line_eval)

lemma parse_D_equals_cm: "parse U (cps ''D=12.5cm'') = [(cps ''D'', 25 / 2)]"
  by (simp add: line_eval)

text \<open>
  C5.  Each of the lines \<^verbatim>\<open>D:12.5\<close>, \<^verbatim>\<open>D=12.5\<close>, \<^verbatim>\<open>D:12.5cm\<close> and
  \<^verbatim>\<open>D=12.5cm\<close> is parsed to the dictionary with the single entry \<open>D \<mapsto> 12.5\<close>;
  and each of the four patterns, applied to the line written in its own form, finds the
  one match with key \<^verbatim>\<open>D\<close> and number text \<^verbatim>\<open>12.5\<close>, the unit not being part
  of it.
\<close>

theorem parse_four_forms:
  "parse U (cps ''D:12.5'') = [(cps ''D'', 25 / 2)]
   \<and> parse U (cps ''D=12.5'') = [(cps ''D'', 25 / 2)]
   \<and> parse U (cps ''D:12.5cm'') = [(cps ''D'', 25 / 2)]
   \<and> parse U (cps ''D=12.5cm'') = [(cps ''D'', 25 / 2)]
   \<and> findall (pattern1 U) (cps ''D:12.5'') = [[cps ''D'', cps ''12.5'']]
   \<and> findall (pattern2 U) (cps ''D=12.5'') = [[cps ''D'', cps ''12.5'']]
   \<and> findall (pattern3 U) (cps ''D:12.5cm'') = [[cps ''D'', cps ''12.5'']]
   \<and> findall (pattern4 U) (cps ''D=12.5cm'') = [[cps ''D'', cps ''12.5'']]"
  using parse_D_colon parse_D_equals parse_D_colon_cm parse_D_equals_cm
    findall_D_colon findall_D_equals findall_D_colon_cm findall_D_equals_cm
  by (intro conjI) blast+

lemma parse_both_colon:
  "parse U (cps ''D:12.5 fom:3'') = [(cps ''D'', 25 / 2), (cps ''fom'', 3)]"
  by (simp add: line_eval)

lemma parse_both_equals:
  "parse U (cps ''D=12.5 fom=3'') = [(cps ''D'', 25 / 2), (cps ''fom'', 3)]"
  by (simp add: line_eval)

lemma parse_colon_equals: "parse U (cps ''D:12.5 fom=3'') = [(cps ''D'', 25 / 2)]"
  by (simp add: line_eval)

lemma parse_equals_colon: "parse U (cps ''D=12.5 fom:3'') = [(cps ''fom'', 3)]"
  by (simp add: line_eval)

text \<open>
  C6.  The result of parsing is built from the matches of one pattern only: the first
  in the order of the list that has a match in the stripped line.  So both tokens of a
  line are kept when they are written with the same separator, and on a line that mixes
  the separators only the tokens of the colon form are kept, wherever they stand.
\<close>

theorem first_grammar_wins:
  "(i < length (patterns U) \<and> (\<forall>j<i. findall (patterns U ! j) (strip U line0) = [])
      \<and> findall (patterns U ! i) (strip U line0) \<noteq> [] \<longrightarrow>
      parse U line0 = store_matches U [] (findall (patterns U ! i) (strip U line0)))
   \<and> parse U (cps ''D:12.5 fom:3'') = [(cps ''D'', 25 / 2), (cps ''fom'', 3)]
   \<and> parse U (cps ''D=12.5 fom=3'') = [(cps ''D'', 25 / 2), (cps ''fom'', 3)]
   \<and> parse U (cps ''D:12.5 fom=3'') = [(cps ''D'', 25 / 2)]
   \<and> parse U (cps ''D=12.5 fom:3'') = [(cps ''fom'', 3)]"
  using parse_first [of i U line0] parse_both_colon parse_both_equals parse_colon_equals
    parse_equals_colon
  by (intro conjI impI) blast+

lemma findall_mixed_1: "findall (pattern1 U) (cps ''D=12.5 fom=3'') = []"
  by (simp add: line_eval)

lemma findall_mixed_2:
  "findall (pattern2 U) (cps ''D=12.5 fom=3'') =
     [[cps ''D'', cps ''12.5''], [cps ''fom'', cps ''3'']]"
  by (simp add: line_eval)

lemma strip_mixed: "strip U (cps ''D=12.5 fom=3'') = cps ''D=12.5 fom=3''"
  by (simp add: strip_def cps_def is_space_def)

theorem first_grammar_wins_witness:
  "parse ascii_db (cps ''D=12.5 fom=3'') =
     store_matches ascii_db [] [[cps ''D'', cps ''12.5''], [cps ''fom'', cps ''3'']]"
proof -
  have "\<forall>j<1. findall (patterns ascii_db ! j) (strip ascii_db (cps ''D=12.5 fom=3'')) = []"
    by (simp add: strip_mixed patterns_def findall_mixed_1)
  moreover have "findall (patterns ascii_db ! 1) (strip ascii_db (cps ''D=12.5 fom=3'')) =
      [[cps ''D'', cps ''12.5''], [cps ''fom'', cps ''3'']]"
    by (simp add: strip_mixed patterns_def findall_mixed_2)
  moreover have "1 < length (patterns ascii_db)" by (simp add: patterns_def)
  ultimately show ?thesis
    using first_grammar_wins [where i = 1 and U = ascii_db and ?line0.0 = "cps ''D=12.5 fom=3''"]
    by simp
qed

lemma parse_blank: "parse U (cps '''') = []" "parse U (cps ''   '') = []"
  by (simp_all add: parse_def strip_def cps_def is_space_def)

lemma parse_garbage: "parse U (cps ''garbage no match'') = []"
  by (simp add: line_eval)

text \<open>
  C7.  Parsing yields the empty dictionary exactly when none of the four patterns has
  a match in the stripped line, in particular for an empty or blank line and for
  \<^verbatim>\<open>garbage no match\<close>; \<^verbatim>\<open>handle_line\<close> then leaves the widget as it is, so no
  sample is stored.  The one conversion that could raise, \<^verbatim>\<open>float(v)\<close>, succeeds on
  every match of every pattern.
\<close>

theorem parse_total:
  "(parse U line0 = [] \<longleftrightarrow> (\<forall>p\<in>set (patterns U). findall p (strip U line0) = []))
   \<and> (strip U line0 = [] \<longrightarrow> parse U line0 = [])
   \<and> (parse U line0 = [] \<longrightarrow> handle_line U st line0 t1 t2 = st)
   \<and> (p \<in> set (patterns U) \<and> m \<in> set (findall p line) \<longrightarrow>
        (\<exists>k v x. m = [k, v] \<and> py_float U v = Some x))
   \<and> parse U (cps '''') = [] \<and> parse U (cps ''   '') = []
   \<and> parse U (cps ''garbage no match'') = []"
proof -
  have "\<exists>k v x. m = [k, v] \<and> py_float U v = Some x"
    if "p \<in> set (patterns U)" "m \<in> set (findall p line)"
    using findall_patterns [OF that] by (auto simp: key_number_def)
  moreover have "parse U line0 = []" if "strip U line0 = []"
    using that by (simp add: parse_def)
  moreover have "handle_line U st line0 t1 t2 = st" if "parse U line0 = []"
    using that by (simp add: handle_line_parse)
  ultimately show ?thesis
    using parse_empty_iff [of U line0] parse_blank [of U] parse_garbage [of U] by blast
qed

theorem parse_total_witness:
  "handle_line ascii_db init_plot (cps ''garbage no match'') 1 2 = init_plot
   \<and> handle_line ascii_db init_plot (cps ''   '') 1 2 = init_plot
   \<and> (\<exists>k v x. [cps ''D'', cps ''12.5''] = [k, v] \<and> py_float ascii_db v = Some x)"
proof -
  have a: "handle_line ascii_db init_plot (cps ''garbage no match'') 1 2 = init_plot"
    using parse_total [where U = ascii_db and ?line0.0 = "cps ''garbage no match''"
        and st = init_plot and ?t1.0 = 1 and ?t2.0 = 2]
    by blast
  have "strip ascii_db (cps ''   '') = []"
    by (simp add: strip_def cps_def is_space_def)
  then have b: "handle_line ascii_db init_plot (cps ''   '') 1 2 = init_plot"
    using parse_total [where U = ascii_db and ?line0.0 = "cps ''   ''"
        and st = init_plot and ?t1.0 = 1 and ?t2.0 = 2]
    by blast
  have "pattern1 ascii_db \<in> set (patterns ascii_db)" by (simp add: patterns_def)
  moreover have "[cps ''D'', cps ''12.5''] \<in> set (findall (pattern1 ascii_db) (cps ''D:12.5''))"
    by (simp add: findall_D_colon)
  ultimately have c: "\<exists>k v x. [cps ''D'', cps ''12.5''] = [k, v] \<and> py_float ascii_db v = Some x"
    using parse_total [where U = ascii_db and p = "pattern1 ascii_db"
        and m = "[cps ''D'', cps ''12.5'']" and line = "cps ''D:12.5''"]
    by blast
  from a b c show ?thesis by blast
qed

lemma parse_D_twice: "parse U (cps ''D:1 D:2'') = [(cps ''D'', 2)]"
  by (simp add: line_eval)

lemma findall_D_twice:
  "findall (pattern1 U) (cps ''D:1 D:2'') = [[cps ''D'', cps ''1''], [cps ''D'', cps ''2'']]"
  by (simp add: line_eval)

lemma strip_D_twice: "strip U (cps ''D:1 D:2'') = cps ''D:1 D:2''"
  by (simp add: strip_def cps_def is_space_def)

text \<open>
  C10.  When the pattern that is used matches a key several times, the dictionary holds
  for that key the number of its last match: for the first pattern with a match, if its
  matches are \<open>ms1\<close>, then key \<open>k\<close> with number text \<open>v\<close>, then matches \<open>ms2\<close> with
  other keys, the value under \<open>k\<close> is \<^verbatim>\<open>float(v)\<close>.  The line \<^verbatim>\<open>D:1 D:2\<close> yields
  \<open>D \<mapsto> 2\<close>.
\<close>

theorem last_occurrence_wins:
  "(i < length (patterns U) \<and> (\<forall>j<i. findall (patterns U ! j) (strip U line0) = [])
      \<and> findall (patterns U ! i) (strip U line0) = ms1 @ [k, v] # ms2
      \<and> (\<forall>m\<in>set ms2. hd m \<noteq> k) \<longrightarrow>
      (\<exists>x. py_float U v = Some x \<and> map_of (parse U line0) k = Some x))
   \<and> parse U (cps ''D:1 D:2'') = [(cps ''D'', 2)]"
  using parse_last_occurrence [of i U line0 ms1 k v ms2] parse_D_twice
  by (intro conjI impI) blast+

theorem last_occurrence_wins_witness:
  "\<exists>x. py_float ascii_db (cps ''2'') = Some x
       \<and> map_of (parse ascii_db (cps ''D:1 D:2'')) (cps ''D'') = Some x"
proof (rule last_occurrence_wins [where i = 0 and U = ascii_db and ?line0.0 = "cps ''D:1 D:2''"
        and ?ms1.0 = "[[cps ''D'', cps ''1'']]" and k = "cps ''D''" and v = "cps ''2''"
        and ?ms2.0 = "[]", THEN conjunct1, THEN mp])
  show "0 < length (patterns ascii_db)
    \<and> (\<forall>j<0. findall (patterns ascii_db ! j) (strip ascii_db (cps ''D:1 D:2'')) = [])
    \<and> findall (patterns ascii_db ! 0) (strip ascii_db (cps ''D:1 D:2'')) =
          [[cps ''D'', cps ''1'']] @ [cps ''D'', cps ''2''] # []
    \<and> (\<forall>m\<in>set []. hd m \<noteq> cps ''D'')"
    by (simp add: strip_D_twice patterns_def findall_D_twice)
qed

section \<open>Decoding of received lines\<close>

lemma utf8_next_single:
  "b < 0x80 \<Longrightarrow> utf8_next b bs = (Some (unat b), 0)"
  "never_start b \<Longrightarrow> utf8_next b bs = (None, 0)"
  by (auto simp: utf8_next_def never_start_def word_less_nat_alt word_le_nat_alt)

lemma utf8_items_single:
  "\<forall>b\<in>set bs. b < 0x80 \<or> never_start b \<Longrightarrow>
   utf8_items bs = map (\<lambda>b. if b < 0x80 then Some (unat b) else None) bs"
proof (induction bs)
  case Nil
  then show ?case by simp
next
  case (Cons b bs)
  then have "b < 0x80 \<or> never_start b" by simp
  then have "utf8_next b bs = (if b < 0x80 then Some (unat b) else None, 0)"
    using utf8_next_single [of b bs] by auto
  with Cons show ?case by simp
qed

lemma decode_ignore_drops:
  assumes "\<forall>b\<in>set bs. b < 0x80 \<or> never_start b"
  shows "decode Ignore bs = Some (map unat (filter (\<lambda>b. b < 0x80) bs))"
  unfolding decode_def utf8_items_single [OF assms]
  by (induction bs) auto

lemma decode_replace_marks:
  assumes "\<forall>b\<in>set bs. b < 0x80 \<or> never_start b"
  shows "decode Replace bs = Some (map (\<lambda>b. if b < 0x80 then unat b else 0xFFFD) bs)"
  unfolding decode_def utf8_items_single [OF assms]
  by (induction bs) auto

lemma decode_ignore_total: "\<exists>text. decode Ignore bs = Some text"
  by (simp add: decode_def)

lemma iteration_data:
  assumes "open_port st is_open opn = Inr st1"
  shows "iteration U st is_open opn (Data bs) = (Continue, act st1 (received U Ignore bs))"
  using assms decode_ignore_total [of bs]
  by (auto simp: iteration_def poll_port_def received_def line_of_def act_def Let_def)

text \<open>
  C8 (as amended).  A pass of the loop that reads the bytes \<open>bs\<close> from a usable port
  decodes them with ill-formed sequences left out, which never fails, strips the text,
  and emits \<^verbatim>\<open>data_received\<close> with the stripped text exactly when that is not empty;
  nothing else is done in the pass.  In particular a line made of ASCII bytes and of
  bytes that cannot start a sequence decodes to its ASCII bytes alone: nothing is put in
  the place of the others.
\<close>

theorem lenient_decode_emit:
  "(open_port st is_open opn = Inr st1 \<longrightarrow>
      iteration U st is_open opn (Data bs) =
        (Continue,
         act st1 (if line_of U Ignore bs \<noteq> []
                  then [Emit (DataReceived (line_of U Ignore bs))] else [])))
   \<and> (\<exists>text. decode Ignore bs = Some text \<and> line_of U Ignore bs = strip U text)
   \<and> ((\<forall>b\<in>set bs. b < 0x80 \<or> never_start b) \<longrightarrow>
        decode Ignore bs = Some (map unat (filter (\<lambda>b. b < 0x80) bs)))"
  using iteration_data [of st is_open opn st1 U bs] decode_ignore_total [of bs]
    decode_ignore_drops [of bs]
  by (auto simp: received_def line_of_def)

theorem lenient_decode_emit_witness:
  "iteration ascii_db ((init_reader 3)\<lparr>running := True, ser := True\<rparr>) True Opened
     (Data [0x44, 0xFF, 0x3A, 0x31, 0x0A]) =
     (Continue,
      (init_reader 3)\<lparr>running := True, ser := True,
                      trace := [Emit (DataReceived (cps ''D:1''))]\<rparr>)
   \<and> decode Ignore [0x44, 0xFF, 0x3A, 0x31, 0x0A] = Some (cps ''D:1'' @ [10])"
proof -
  let ?st = "(init_reader 3)\<lparr>running := True, ser := True\<rparr>"
  let ?bs = "[0x44, 0xFF, 0x3A, 0x31, 0x0A] :: bytes"
  note t = lenient_decode_emit [where st = ?st and is_open = True and opn = Opened
      and ?st1.0 = ?st and U = ascii_db and bs = ?bs]
  have o: "open_port ?st True Opened = Inr ?st"
    by (simp add: open_port_def init_reader_def)
  have a: "\<forall>b\<in>set ?bs. b < 0x80 \<or> never_start b"
    by (simp add: never_start_def)
  from t a have d: "decode Ignore ?bs = Some (cps ''D:1'' @ [10])"
    by (simp add: cps_def)
  then have l: "line_of ascii_db Ignore ?bs = cps ''D:1''"
    by (simp add: line_of_def strip_def cps_def is_space_def)
  from t o l d show ?thesis
    by (simp add: act_def init_reader_def cps_def)
qed

text \<open>
  The bytes \<open>FF 0A\<close>: with replacement the text would be U+FFFD and a line break, and
  \<^verbatim>\<open>data_received\<close> would be emitted with U+FFFD; the reader decodes them to the
  line break alone and emits nothing.
\<close>

theorem replaced_bytes_counterexample:
  "decode Replace [0xFF, 0x0A] = Some [0xFFFD, 10]
   \<and> received ascii_db Replace [0xFF, 0x0A] = [Emit (DataReceived [0xFFFD])]
   \<and> decode Ignore [0xFF, 0x0A] = Some [10]
   \<and> iteration ascii_db ((init_reader 3)\<lparr>running := True, ser := True\<rparr>) True Opened
        (Data [0xFF, 0x0A]) = (Continue, (init_reader 3)\<lparr>running := True, ser := True\<rparr>)"
  by (simp add: decode_def utf8_next_def received_def line_of_def strip_def is_space_def
                ascii_db_def iteration_def open_port_def poll_port_def init_reader_def)

end
